theory Spec2Isabelle
  imports Complex_Main
begin

section \<open>Numbers and time as the Go program has them\<close>

text \<open>
  Go's \<open>int\<close> is a 64-bit two's-complement integer on the platforms the service is built
  for; \<open>+\<close> and \<open>--\<close> wrap around. It is modelled as a HOL \<open>int\<close> with the wrap-around
  written out (\<open>wrap64\<close>). A \<open>time.Time\<close> is a count of nanoseconds on the monotonic
  clock, a \<open>time.Duration\<close> a count of nanoseconds.

  A finite \<open>float64\<close> is modelled by the rational number it denotes. Every floating-point
  operation computes the exact result and rounds it to the nearest binary64 value, ties to
  the even significand (\<open>round64\<close>). A refill rate is a finite \<open>float64\<close>, as every JSON
  number is.
\<close>

type_synonym time = int
type_synonym duration = int

definition min_int64 :: int where
  "min_int64 = - (2 ^ 63)"

definition max_int64 :: int where
  "max_int64 = 2 ^ 63 - 1"

definition int64 :: "int \<Rightarrow> bool" where
  "int64 x \<longleftrightarrow> min_int64 \<le> x \<and> x \<le> max_int64"

definition wrap64 :: "int \<Rightarrow> int" where
  "wrap64 x = (x + 2 ^ 63) mod 2 ^ 64 - 2 ^ 63"

text \<open>\<open>time.Time.Sub\<close>: the difference, saturated at the largest and smallest duration.\<close>

definition Sub :: "time \<Rightarrow> time \<Rightarrow> duration" where
  "Sub t u = (let d = t - u in
     if d < min_int64 then min_int64 else if d > max_int64 then max_int64 else d)"

text \<open>
  Go's \<open>/\<close> and \<open>%\<close> on integers: the quotient truncated towards zero and its remainder.
\<close>

definition go_quot :: "int \<Rightarrow> int \<Rightarrow> int" where
  "go_quot a n = (if a < 0 then - ((- a) div \<bar>n\<bar>) else a div \<bar>n\<bar>) * sgn n"

definition go_rem :: "int \<Rightarrow> int \<Rightarrow> int" where
  "go_rem a n = (if a < 0 then - ((- a) mod \<bar>n\<bar>) else a mod \<bar>n\<bar>)"

subsection \<open>Rounding to binary64\<close>

text \<open>\<open>ilog2 n\<close> is \<open>\<lfloor>log\<^sub>2 n\<rfloor>\<close> for \<open>n \<ge> 1\<close>; \<open>pow2 e\<close> is \<open>2\<^sup>e\<close>.\<close>

function ilog2 :: "int \<Rightarrow> int" where
  "ilog2 n = (if n < 2 then 0 else 1 + ilog2 (n div 2))"
  by pat_completeness auto
termination
  by (relation "measure nat") auto

declare ilog2.simps [simp del]

definition pow2 :: "int \<Rightarrow> rat" where
  "pow2 e = (if 0 \<le> e then 2 ^ nat e else 1 / 2 ^ nat (- e))"

text \<open>The binary exponent \<open>\<lfloor>log\<^sub>2 a\<rfloor>\<close> of a positive rational.\<close>

definition floor_log2 :: "rat \<Rightarrow> int" where
  "floor_log2 a = (if 1 \<le> a then ilog2 \<lfloor>a\<rfloor> else - (ilog2 (\<lceil>1 / a\<rceil> - 1) + 1))"

text \<open>The nearest integer; a tie goes to the even one.\<close>

definition round_half_even :: "rat \<Rightarrow> int" where
  "round_half_even q = (let f = \<lfloor>q\<rfloor>; r = q - of_int f
     in if r < 1 / 2 then f else if 1 / 2 < r then f + 1 else if even f then f else f + 1)"

text \<open>
  The binary64 value nearest to a rational: a significand of 53 bits at the exponent of
  the argument, and below \<open>2\<^sup>-\<^sup>1\<^sup>0\<^sup>2\<^sup>2\<close> the fixed spacing \<open>2\<^sup>-\<^sup>1\<^sup>0\<^sup>7\<^sup>4\<close> of the subnormal
  numbers. A result beyond the largest binary64 value, which is an infinity in Go, is left
  as a rational beyond that value: the only operation that can produce one is the product
  in \<open>refillBucket\<close>, whose result is passed to \<open>int\<close>, and \<open>int\<close> treats an infinity like
  every finite value outside the range of \<open>int\<close> (see \<open>go_int\<close>).
\<close>

definition round64 :: "rat \<Rightarrow> rat" where
  "round64 a = (if a = 0 then 0
     else (let m = \<bar>a\<bar>; e = max (floor_log2 m) (- 1022); ulp = pow2 (e - 52)
           in sgn a * (of_int (round_half_even (m / ulp)) * ulp)))"

text \<open>
  \<open>time.Duration.Seconds\<close>:
  \<^verbatim>\<open>sec := d / Second; nsec := d % Second; return float64(sec) + float64(nsec)/1e9\<close>.
\<close>

definition Seconds :: "duration \<Rightarrow> rat" where
  "Seconds d = (let sec = go_quot d 1000000000; nsec = go_rem d 1000000000
     in round64 (round64 (of_int sec) + round64 (round64 (of_int nsec) / 1000000000)))"

text \<open>A duration as an exact number of seconds (the \<open>\<Delta>\<close> and \<open>T\<close> of the specification).\<close>

definition exact_seconds :: "duration \<Rightarrow> rat" where
  "exact_seconds d = of_int d / 1000000000"

text \<open>
  The conversion \<open>int(f)\<close> of a float: the fraction is discarded (truncation towards
  zero). When the truncated value is not a 64-bit integer (or \<open>f\<close> is an infinity), the
  result is implementation-dependent in Go; the value that amd64 produces is taken here.
\<close>

definition go_int :: "rat \<Rightarrow> int" where
  "go_int x = (let t = (if x < 0 then \<lceil>x\<rceil> else \<lfloor>x\<rfloor>) in
     if int64 t then t else min_int64)"

section \<open>The token bucket (pkg/ratelimiter/ratelimiter.go)\<close>

record TokenBucket =
  capacity :: int
  tokens :: int
  refillRate :: rat
  lastRefill :: time
  lastAccess :: time

text \<open>\<open>refillBucket\<close>; \<open>now\<close> is the value of \<open>time.Now()\<close> it reads.\<close>

definition refillBucket :: "TokenBucket \<Rightarrow> time \<Rightarrow> TokenBucket" where
  "refillBucket bucket now =
     (let elapsed = Seconds (Sub now (lastRefill bucket));
          newTokens = go_int (round64 (elapsed * refillRate bucket))
      in if newTokens > 0
         then (let t = wrap64 (tokens bucket + newTokens);
                   t' = (if t > capacity bucket then capacity bucket else t)
               in bucket\<lparr>tokens := t', lastRefill := now\<rparr>)
         else bucket)"

text \<open>
  The critical section of \<open>Allow\<close> (between locking and unlocking the bucket's mutex):
  refill, record the access, then take a token if there is one. \<open>now\<close> and \<open>now'\<close> are
  the two readings of the clock, in \<open>refillBucket\<close> and for \<open>lastAccess\<close>.
\<close>

definition Allow_bucket :: "TokenBucket \<Rightarrow> time \<Rightarrow> time \<Rightarrow> bool \<times> TokenBucket" where
  "Allow_bucket bucket now now' =
     (let b1 = refillBucket bucket now;
          b2 = b1\<lparr>lastAccess := now'\<rparr>
      in if tokens b2 > 0
         then (True, b2\<lparr>tokens := wrap64 (tokens b2 - 1)\<rparr>)
         else (False, b2))"

text \<open>
  The struct literal that creates a bucket (in \<open>createBucketInMemory\<close>, \<open>getBucket\<close>
  and \<open>SetClientLimit\<close>): the bucket starts full.
\<close>

definition newBucket :: "int \<Rightarrow> rat \<Rightarrow> time \<Rightarrow> TokenBucket" where
  "newBucket cap rate now =
     \<lparr>capacity = cap, tokens = cap, refillRate = rate, lastRefill = now, lastAccess = now\<rparr>"

text \<open>The critical section of \<open>SetClientLimit\<close> on a bucket that exists.\<close>

definition setLimits :: "TokenBucket \<Rightarrow> int \<Rightarrow> rat \<Rightarrow> TokenBucket" where
  "setLimits bucket cap rate =
     (let b1 = bucket\<lparr>capacity := cap, refillRate := rate\<rparr>
      in if tokens b1 > cap then b1\<lparr>tokens := cap\<rparr> else b1)"

section \<open>The settings store (pkg/storage)\<close>

text \<open>
  The persisted table maps a client to its limit. Both implementations (the in-memory map
  and the SQL table) are covered: every operation takes a flag \<open>fails\<close> saying whether the
  I/O fails; a failed operation returns an error and leaves the table as it was. The
  in-memory store never fails.
\<close>

record ClientLimit =
  Capacity :: int
  RefillRate :: rat

type_synonym Storage = "string \<rightharpoonup> ClientLimit"

datatype error = StorageError

definition storage_SaveClientLimit ::
  "bool \<Rightarrow> Storage \<Rightarrow> string \<Rightarrow> int \<Rightarrow> rat \<Rightarrow> error option \<times> Storage" where
  "storage_SaveClientLimit fails st clientID cap rate =
     (if fails then (Some StorageError, st)
      else (None, st(clientID \<mapsto> \<lparr>Capacity = cap, RefillRate = rate\<rparr>)))"

definition storage_GetClientLimit ::
  "bool \<Rightarrow> Storage \<Rightarrow> string \<Rightarrow> int \<times> rat \<times> bool \<times> error option" where
  "storage_GetClientLimit fails st clientID =
     (if fails then (0, 0, False, Some StorageError)
      else (case st clientID of
              None \<Rightarrow> (0, 0, False, None)
            | Some limit \<Rightarrow> (Capacity limit, RefillRate limit, True, None)))"

definition storage_DeleteClientLimit ::
  "bool \<Rightarrow> Storage \<Rightarrow> string \<Rightarrow> error option \<times> Storage" where
  "storage_DeleteClientLimit fails st clientID =
     (if fails then (Some StorageError, st) else (None, st(clientID := None)))"

section \<open>The rate limiter (pkg/ratelimiter)\<close>

text \<open>
  The admission table \<open>buckets\<close> holds the buckets themselves (Go holds pointers; a bucket
  is reachable through the table only). \<open>storage\<close> is \<open>None\<close> for a nil store. Locks and
  the logger have no effect on the state and are left out: every operation is modelled as
  it runs alone.
\<close>

record RateLimiter =
  buckets :: "string \<rightharpoonup> TokenBucket"
  defaultCap :: int
  defaultRate :: rat
  storage :: "Storage option"

definition createBucketInMemory :: "RateLimiter \<Rightarrow> string \<Rightarrow> int \<Rightarrow> rat \<Rightarrow> time \<Rightarrow> RateLimiter" where
  "createBucketInMemory rl clientID cap rate now =
     rl\<lparr>buckets := (buckets rl)(clientID \<mapsto> newBucket cap rate now)\<rparr>"

text \<open>
  \<open>getBucket\<close> returns the bucket, the limiter with the bucket installed, and the write
  of the default settings that it hands to a new goroutine (\<open>None\<close> when it starts none).
\<close>

definition getBucket ::
  "RateLimiter \<Rightarrow> string \<Rightarrow> bool \<Rightarrow> time \<Rightarrow> TokenBucket \<times> RateLimiter \<times> (string \<times> int \<times> rat) option" where
  "getBucket rl clientID fails now =
     (case buckets rl clientID of
        Some bucket \<Rightarrow> (bucket, rl, None)
      | None \<Rightarrow>
          (let (cap, rate, storedSettings) =
                 (case storage rl of
                    None \<Rightarrow> (defaultCap rl, defaultRate rl, False)
                  | Some st \<Rightarrow>
                      (case storage_GetClientLimit fails st clientID of
                         (storedCapacity, storedRate, exists, err) \<Rightarrow>
                           if err \<noteq> None then (defaultCap rl, defaultRate rl, False)
                           else if exists then (storedCapacity, storedRate, True)
                           else (defaultCap rl, defaultRate rl, False)));
               bucket = newBucket cap rate now
           in (bucket, rl\<lparr>buckets := (buckets rl)(clientID \<mapsto> bucket)\<rparr>,
               if storage rl \<noteq> None \<and> \<not> storedSettings then Some (clientID, cap, rate) else None)))"

text \<open>
  \<open>Allow\<close>: \<open>fails\<close> is the outcome of the store lookup in \<open>getBucket\<close>; \<open>now0\<close>, \<open>now\<close> and
  \<open>now'\<close> are the three readings of the clock, in order. The result is the decision, the
  limiter, and the write started by \<open>getBucket\<close>.
\<close>

definition Allow ::
  "RateLimiter \<Rightarrow> string \<Rightarrow> bool \<Rightarrow> time \<Rightarrow> time \<Rightarrow> time \<Rightarrow> bool \<times> RateLimiter \<times> (string \<times> int \<times> rat) option" where
  "Allow rl clientID fails now0 now now' =
     (case getBucket rl clientID fails now0 of
        (bucket, rl1, spawned) \<Rightarrow>
          (case Allow_bucket bucket now now' of
             (ok, bucket') \<Rightarrow> (ok, rl1\<lparr>buckets := (buckets rl1)(clientID \<mapsto> bucket')\<rparr>, spawned)))"

text \<open>One tick of \<open>refillTokens\<close>; \<open>nowf\<close> gives the clock reading made for each bucket.\<close>

definition refillTokens :: "RateLimiter \<Rightarrow> (string \<Rightarrow> time) \<Rightarrow> RateLimiter" where
  "refillTokens rl nowf =
     rl\<lparr>buckets := (\<lambda>clientID. map_option (\<lambda>bucket. refillBucket bucket (nowf clientID))
                                  (buckets rl clientID))\<rparr>"

text \<open>One tick of \<open>cleanupInactiveBuckets\<close>, with its reading \<open>now\<close> of the clock.\<close>

definition cleanupInactiveBuckets :: "RateLimiter \<Rightarrow> time \<Rightarrow> RateLimiter" where
  "cleanupInactiveBuckets rl now =
     (let inactiveThreshold = 30 * 60 * 1000000000
      in rl\<lparr>buckets := (\<lambda>clientID.
           case buckets rl clientID of
             None \<Rightarrow> None
           | Some bucket \<Rightarrow>
               if Sub now (lastAccess bucket) > inactiveThreshold then None else Some bucket)\<rparr>)"

definition SetClientLimit :: "RateLimiter \<Rightarrow> string \<Rightarrow> int \<Rightarrow> rat \<Rightarrow> time \<Rightarrow> bool \<Rightarrow> RateLimiter" where
  "SetClientLimit rl clientID cap rate now fails =
     (let rl1 = (case buckets rl clientID of
                   Some bucket \<Rightarrow> rl\<lparr>buckets := (buckets rl)(clientID \<mapsto> setLimits bucket cap rate)\<rparr>
                 | None \<Rightarrow> rl\<lparr>buckets := (buckets rl)(clientID \<mapsto> newBucket cap rate now)\<rparr>)
      in case storage rl1 of
           None \<Rightarrow> rl1
         | Some st \<Rightarrow>
             (case storage_SaveClientLimit fails st clientID cap rate of
                (err, st') \<Rightarrow> rl1\<lparr>storage := Some st'\<rparr>))"

definition GetClientLimit :: "RateLimiter \<Rightarrow> string \<Rightarrow> int \<times> rat \<times> bool" where
  "GetClientLimit rl clientID =
     (case buckets rl clientID of
        None \<Rightarrow> (defaultCap rl, defaultRate rl, False)
      | Some bucket \<Rightarrow> (capacity bucket, refillRate bucket, True))"

definition DeleteClientLimit :: "RateLimiter \<Rightarrow> string \<Rightarrow> bool \<Rightarrow> error option \<times> RateLimiter" where
  "DeleteClientLimit rl clientID fails =
     (let rl1 = rl\<lparr>buckets := (buckets rl)(clientID := None)\<rparr>
      in case storage rl1 of
           None \<Rightarrow> (None, rl1)
         | Some st \<Rightarrow>
             (case storage_DeleteClientLimit fails st clientID of
                (Some err, st') \<Rightarrow> (Some err, rl1\<lparr>storage := Some st'\<rparr>)
              | (None, st') \<Rightarrow> (None, rl1\<lparr>storage := Some st'\<rparr>)))"

text \<open>The write of default settings that \<open>getBucket\<close> starts, when it runs.\<close>

definition spawned_save :: "RateLimiter \<Rightarrow> string \<times> int \<times> rat \<Rightarrow> bool \<Rightarrow> RateLimiter" where
  "spawned_save rl w fails =
     (case w of (clientID, cap, rate) \<Rightarrow>
        (case storage rl of
           None \<Rightarrow> rl
         | Some st \<Rightarrow> rl\<lparr>storage := Some (snd (storage_SaveClientLimit fails st clientID cap rate))\<rparr>))"

subsection \<open>The control API (handlers)\<close>

text \<open>
  A handler returns the HTTP status it writes and the limiter. \<open>body\<close> is the decoded
  JSON body, \<open>None\<close> when decoding fails.
\<close>

definition CreateClientHandler ::
  "RateLimiter \<Rightarrow> ClientLimit option \<Rightarrow> string \<Rightarrow> time \<Rightarrow> bool \<Rightarrow> nat \<times> RateLimiter" where
  "CreateClientHandler rl body clientID now fails =
     (case body of
        None \<Rightarrow> (400, rl)
      | Some req \<Rightarrow>
          if clientID = [] then (400, rl)
          else (201, SetClientLimit rl clientID (Capacity req) (RefillRate req) now fails))"

definition DeleteClientHandler :: "RateLimiter \<Rightarrow> string \<Rightarrow> bool \<Rightarrow> nat \<times> RateLimiter" where
  "DeleteClientHandler rl clientID fails =
     (case GetClientLimit rl clientID of
        (_, _, exists) \<Rightarrow>
          if \<not> exists then (404, rl)
          else (case DeleteClientLimit rl clientID fails of
                  (Some err, rl') \<Rightarrow> (500, rl')
                | (None, rl') \<Rightarrow> (200, rl')))"

subsection \<open>Histories of one bucket and of the limiter\<close>

text \<open>
  What happens to one bucket between two changes of its limits: \<open>Allow\<close> calls and
  ticks of the background refill, each with its clock readings.
\<close>

datatype bucket_event = EvAllow time time | EvRefill time

fun ev_time :: "bucket_event \<Rightarrow> time" where
  "ev_time (EvAllow now now') = now"
| "ev_time (EvRefill now) = now"

text \<open>The number of \<open>Allow\<close> calls of a history that return true.\<close>

fun admits :: "TokenBucket \<Rightarrow> bucket_event list \<Rightarrow> nat" where
  "admits bucket [] = 0"
| "admits bucket (EvAllow now now' # evs) =
     (case Allow_bucket bucket now now' of
        (ok, bucket') \<Rightarrow> (if ok then 1 else 0) + admits bucket' evs)"
| "admits bucket (EvRefill now # evs) = admits (refillBucket bucket now) evs"

text \<open>
  A history of the limiter: \<open>Allow\<close> calls (for any client), refill ticks, and writes to
  the store by the goroutines that \<open>getBucket\<close> started. \<open>run\<close> returns the decision of
  every \<open>Allow\<close> call with its client, in order.
\<close>

datatype event =
    Admit string bool time time time
  | Tick "string \<Rightarrow> time"
  | Persist string int rat bool

fun run :: "RateLimiter \<Rightarrow> event list \<Rightarrow> (string \<times> bool) list" where
  "run rl [] = []"
| "run rl (Admit clientID fails now0 now now' # evs) =
     (case Allow rl clientID fails now0 now now' of
        (ok, rl', spawned) \<Rightarrow> (clientID, ok) # run rl' evs)"
| "run rl (Tick nowf # evs) = run (refillTokens rl nowf) evs"
| "run rl (Persist clientID cap rate fails # evs) =
     run (spawned_save rl (clientID, cap, rate) fails) evs"

section \<open>The balancer (internal/balancer)\<close>

text \<open>
  A backend. The pool is the list of backends in configuration order; Go's pointer to a
  backend is its index in the pool.
\<close>

record Server =
  URL :: string
  ActiveConnections :: int
  Healthy :: bool

text \<open>
  The loop of \<open>RoundRobin.NextServer\<close>, with \<open>k\<close> iterations left. The result is \<open>None\<close>
  when the index expression \<open>servers[rr.current]\<close> is out of range (a run-time panic), and
  otherwise the backend returned (\<open>None\<close> for nil) with the new value of \<open>rr.current\<close>.
\<close>

fun rr_loop :: "Server list \<Rightarrow> int \<Rightarrow> nat \<Rightarrow> int \<Rightarrow> (nat option \<times> int) option" where
  "rr_loop servers initialIdx 0 current = Some (None, current)"
| "rr_loop servers initialIdx (Suc k) current =
     (let current' = go_rem (current + 1) (int (length servers))
      in if current' < 0 \<or> int (length servers) \<le> current' then None
         else if Healthy (servers ! nat current') then Some (Some (nat current'), current')
         else if current' = initialIdx then Some (None, current')
         else rr_loop servers initialIdx k current')"

definition rr_NextServer :: "int \<Rightarrow> Server list \<Rightarrow> (nat option \<times> int) option" where
  "rr_NextServer current servers =
     (if length servers = 0 then Some (None, current)
      else rr_loop servers current (length servers) current)"

text \<open>\<open>NewRoundRobin\<close>: the cursor starts before index 0.\<close>

definition NewRoundRobin :: int where
  "NewRoundRobin = - 1"

text \<open>The backends returned by \<open>n\<close> consecutive calls of \<open>RoundRobin.NextServer\<close>.\<close>

fun rr_picks :: "Server list \<Rightarrow> int \<Rightarrow> nat \<Rightarrow> nat option list option" where
  "rr_picks servers current 0 = Some []"
| "rr_picks servers current (Suc n) =
     (case rr_NextServer current servers of
        None \<Rightarrow> None
      | Some (r, current') \<Rightarrow>
          (case rr_picks servers current' n of None \<Rightarrow> None | Some rs \<Rightarrow> Some (r # rs)))"

text \<open>
  The loop of \<open>LeastConnections.NextServer\<close> over the backends with their indices;
  \<open>minServer\<close> is \<open>None\<close> for nil.
\<close>

fun lc_loop :: "(nat \<times> Server) list \<Rightarrow> nat option \<Rightarrow> int \<Rightarrow> nat option" where
  "lc_loop [] minServer minConnections = minServer"
| "lc_loop ((i, server) # rest) minServer minConnections =
     (if \<not> Healthy server then lc_loop rest minServer minConnections
      else (let connections = ActiveConnections server
            in if minServer = None \<or> connections < minConnections
               then lc_loop rest (Some i) connections
               else lc_loop rest minServer minConnections))"

definition lc_NextServer :: "Server list \<Rightarrow> nat option" where
  "lc_NextServer servers =
     (if length servers = 0 then None else lc_loop (enumerate 0 servers) None (- 1))"

text \<open>
  The load balancer with its strategy; the round-robin strategy carries its cursor.
\<close>

datatype BalancingAlgorithm = RoundRobin int | LeastConnections

record LoadBalancer =
  servers :: "Server list"
  algorithm :: BalancingAlgorithm

definition getNextServer :: "LoadBalancer \<Rightarrow> (nat option \<times> LoadBalancer) option" where
  "getNextServer lb =
     (case algorithm lb of
        RoundRobin current \<Rightarrow>
          (case rr_NextServer current (servers lb) of
             None \<Rightarrow> None
           | Some (r, current') \<Rightarrow> Some (r, lb\<lparr>algorithm := RoundRobin current'\<rparr>))
      | LeastConnections \<Rightarrow> Some (lc_NextServer (servers lb), lb))"

text \<open>
  What the call \<open>server.ReverseProxy.ServeHTTP(w, r)\<close> does: it returns after relaying the
  origin's response, it returns after the \<open>ErrorHandler\<close> has answered 502 for a failed
  round trip, or it panics (\<open>httputil.ReverseProxy\<close> panics with \<open>http.ErrAbortHandler\<close>
  when copying the response body fails).
\<close>

datatype proxy_outcome = Relayed nat | BadGateway | ProxyPanic

text \<open>How \<open>ServeHTTP\<close> ends: with a status written, or by a panic that unwinds it.\<close>

datatype served = Status nat | Panicked

definition incr :: "Server list \<Rightarrow> nat \<Rightarrow> Server list" where
  "incr ss i = ss[i := (ss ! i)\<lparr>ActiveConnections := wrap64 (ActiveConnections (ss ! i) + 1)\<rparr>]"

definition decr :: "Server list \<Rightarrow> nat \<Rightarrow> Server list" where
  "decr ss i = ss[i := (ss ! i)\<lparr>ActiveConnections := wrap64 (ActiveConnections (ss ! i) - 1)\<rparr>]"

text \<open>
  \<open>LoadBalancer.ServeHTTP\<close>; \<open>proxy\<close> gives the outcome of forwarding to the chosen
  backend. The function has no deferred call: a panic leaves it at once.
\<close>

definition ServeHTTP :: "LoadBalancer \<Rightarrow> (nat \<Rightarrow> proxy_outcome) \<Rightarrow> served \<times> LoadBalancer" where
  "ServeHTTP lb proxy =
     (case getNextServer lb of
        None \<Rightarrow> (Panicked, lb)
      | Some (None, lb1) \<Rightarrow> (Status 503, lb1)
      | Some (Some i, lb1) \<Rightarrow>
          (let lb2 = lb1\<lparr>servers := incr (servers lb1) i\<rparr>
           in case proxy i of
                ProxyPanic \<Rightarrow> (Panicked, lb2)
              | BadGateway \<Rightarrow> (Status 502, lb2\<lparr>servers := decr (servers lb2) i\<rparr>)
              | Relayed st \<Rightarrow> (Status st, lb2\<lparr>servers := decr (servers lb2) i\<rparr>)))"

section \<open>Predicates and sample states used in the statements\<close>

text \<open>The bucket invariant of the data model: \<open>0 \<le> tokens \<le> capacity\<close>.\<close>

definition bucket_inv :: "TokenBucket \<Rightarrow> bool" where
  "bucket_inv b \<longleftrightarrow> 0 \<le> tokens b \<and> tokens b \<le> capacity b"

text \<open>Full buckets with very large limits, created at time 0.\<close>

definition bucket_max :: TokenBucket where
  "bucket_max = newBucket 9223372036854775807 1 0"

definition bucket_big :: TokenBucket where
  "bucket_big = newBucket 4611686018427387904 4611686018427387904 0"

text \<open>
  A client is starved when its bucket exists with \<open>tokens \<le> capacity \<le> 0\<close>.
\<close>

definition starved :: "RateLimiter \<Rightarrow> string \<Rightarrow> bool" where
  "starved rl clientID \<longleftrightarrow>
     (case buckets rl clientID of
        None \<Rightarrow> False
      | Some b \<Rightarrow> tokens b \<le> capacity b \<and> capacity b \<le> 0)"

text \<open>
  Sample limiters with defaults 100 and 10 and a settings store: an empty one, one whose
  store holds a record for \<open>u1\<close> while the table has no bucket, and one with a full bucket
  of capacity 5 for \<open>u1\<close>.
\<close>

definition limiter_empty :: RateLimiter where
  "limiter_empty =
     \<lparr>buckets = Map.empty, defaultCap = 100, defaultRate = 10, storage = Some Map.empty\<rparr>"

definition limiter_stored :: RateLimiter where
  "limiter_stored =
     limiter_empty\<lparr>storage := Some [''u1'' \<mapsto> \<lparr>Capacity = 5, RefillRate = 1\<rparr>]\<rparr>"

definition limiter_u1 :: RateLimiter where
  "limiter_u1 = createBucketInMemory limiter_stored ''u1'' 5 1 0"

text \<open>A full bucket of capacity 1 and rate 1, created at time 0.\<close>

definition bucket_one :: TokenBucket where
  "bucket_one = newBucket 1 1 0"

text \<open>
  The \<open>j\<close>-th position after the round-robin cursor, in the cyclic order of the pool.
\<close>

definition rr_pos :: "Server list \<Rightarrow> int \<Rightarrow> nat \<Rightarrow> nat" where
  "rr_pos ss current j = nat ((current + 1 + int j) mod int (length ss))"

text \<open>
  \<open>r\<close> is the least-connections choice among the first \<open>k\<close> backends of the pool: a
  healthy backend with the smallest count, the first of those in pool order; no backend
  when none is healthy.
\<close>

definition least_loaded :: "Server list \<Rightarrow> nat \<Rightarrow> nat option \<Rightarrow> bool" where
  "least_loaded ss k r \<longleftrightarrow>
     (case r of
        None \<Rightarrow> (\<forall>j<k. \<not> Healthy (ss ! j))
      | Some i \<Rightarrow>
          i < k \<and> Healthy (ss ! i)
          \<and> (\<forall>j<k. Healthy (ss ! j) \<longrightarrow> ActiveConnections (ss ! i) \<le> ActiveConnections (ss ! j))
          \<and> (\<forall>j<i. Healthy (ss ! j) \<longrightarrow> ActiveConnections (ss ! i) < ActiveConnections (ss ! j)))"

text \<open>
  Sample pools: three healthy idle backends; four backends of which the second is
  unhealthy, with counts 2, 0, 1, 1; and two unhealthy backends.
\<close>

definition pool_healthy :: "Server list" where
  "pool_healthy =
     [\<lparr>URL = ''http://b1'', ActiveConnections = 0, Healthy = True\<rparr>,
      \<lparr>URL = ''http://b2'', ActiveConnections = 0, Healthy = True\<rparr>,
      \<lparr>URL = ''http://b3'', ActiveConnections = 0, Healthy = True\<rparr>]"

definition pool_mixed :: "Server list" where
  "pool_mixed =
     [\<lparr>URL = ''http://b1'', ActiveConnections = 2, Healthy = True\<rparr>,
      \<lparr>URL = ''http://b2'', ActiveConnections = 0, Healthy = False\<rparr>,
      \<lparr>URL = ''http://b3'', ActiveConnections = 1, Healthy = True\<rparr>,
      \<lparr>URL = ''http://b4'', ActiveConnections = 1, Healthy = True\<rparr>]"

definition pool_down :: "Server list" where
  "pool_down =
     [\<lparr>URL = ''http://b1'', ActiveConnections = 0, Healthy = False\<rparr>,
      \<lparr>URL = ''http://b2'', ActiveConnections = 3, Healthy = False\<rparr>]"

definition balancer_sample :: LoadBalancer where
  "balancer_sample = \<lparr>servers = pool_healthy, algorithm = RoundRobin NewRoundRobin\<rparr>"

section \<open>Arithmetic facts\<close>

lemma wrap64_id: "int64 x \<Longrightarrow> wrap64 x = x"
  by (simp add: wrap64_def int64_def min_int64_def max_int64_def)

lemma int64_wrap64: "int64 (wrap64 x)"
proof -
  have "0 \<le> (x + 2 ^ 63) mod (2 ^ 64 :: int)" "(x + 2 ^ 63) mod (2 ^ 64 :: int) < 2 ^ 64"
    by simp_all
  then show ?thesis
    by (simp add: wrap64_def int64_def min_int64_def max_int64_def)
qed

lemma go_int_floor: "0 \<le> x \<Longrightarrow> \<lfloor>x\<rfloor> \<le> max_int64 \<Longrightarrow> go_int x = \<lfloor>x\<rfloor>"
  by (simp add: go_int_def int64_def min_int64_def max_int64_def Let_def)

lemma go_int_nonpos: "x < 0 \<Longrightarrow> go_int x \<le> 0"
proof -
  assume "x < 0"
  then have "\<lceil>x\<rceil> \<le> 0" by simp
  then show ?thesis using \<open>x < 0\<close>
    by (simp add: go_int_def Let_def min_int64_def)
qed

lemma go_int_pos_iff: "\<lfloor>x\<rfloor> \<le> max_int64 \<Longrightarrow> 0 < go_int x \<longleftrightarrow> 0 < \<lfloor>x\<rfloor>"
proof (cases "x < 0")
  case True
  then have "\<lfloor>x\<rfloor> < 0" by simp
  with go_int_nonpos [OF True] show ?thesis by simp
next
  case False
  assume "\<lfloor>x\<rfloor> \<le> max_int64"
  with False show ?thesis by (simp add: go_int_floor)
qed

section \<open>Admission: refill, then take one token\<close>

text \<open>
  What \<open>refillBucket\<close> and \<open>Allow\<close> do when the sum \<open>tokens + newTokens\<close> stays in the
  range of \<open>int\<close>, with \<open>newTokens\<close> as the code computes it.
\<close>

lemma Allow_bucket_in_range:
  assumes "int64 (tokens b)"
    and "added = go_int (round64 (Seconds (Sub now (lastRefill b)) * refillRate b))"
    and "tokens b + added \<le> max_int64"
    and "r = (if 0 < added then min (tokens b + added) (capacity b) else tokens b)"
  shows "refillBucket b now =
           (if 0 < added then b\<lparr>tokens := r, lastRefill := now\<rparr> else b)
       \<and> Allow_bucket b now now' =
           (0 < r, b\<lparr>tokens := (if 0 < r then r - 1 else r),
                      lastRefill := (if 0 < added then now else lastRefill b),
                      lastAccess := now'\<rparr>)"
proof -
  have w: "0 < added \<Longrightarrow> wrap64 (tokens b + added) = tokens b + added"
    using assms(1,3) by (intro wrap64_id) (simp add: int64_def)
  have rf: "refillBucket b now = (if 0 < added then b\<lparr>tokens := r, lastRefill := now\<rparr> else b)"
    using w assms(2,4) by (auto simp add: refillBucket_def Let_def min_def)
  have "r \<le> max_int64"
    using assms(1,3,4) unfolding int64_def min_def by (auto split: if_splits)
  then have "0 < r \<Longrightarrow> wrap64 (r - 1) = r - 1"
    by (intro wrap64_id) (simp add: int64_def min_int64_def)
  then have "Allow_bucket b now now' =
           (0 < r, b\<lparr>tokens := (if 0 < r then r - 1 else r),
                      lastRefill := (if 0 < added then now else lastRefill b),
                      lastAccess := now'\<rparr>)"
    using assms(4) by (auto simp add: Allow_bucket_def rf Let_def)
  with rf show ?thesis by simp
qed

text \<open>
  Claim C1 at an input where the code departs from it. A full bucket of capacity
  \<open>2^63 - 1\<close> and rate 1 is asked one second after its creation. The claim's
  \<open>added = \<lfloor>\<Delta> \<cdot> refillRate\<rfloor>\<close> is 1 and its \<open>min (tokens + added) capacity\<close> is
  \<open>2^63 - 1 > 0\<close>, so \<open>Allow\<close> should return true. In the code the sum
  \<open>tokens + newTokens\<close> wraps around to \<open>- 2^63\<close> before the clamp, which leaves it in
  place, and \<open>Allow\<close> returns false.
\<close>

theorem Allow_refuses_after_refill_wraps:
  "\<lfloor>exact_seconds (1000000000 - lastRefill bucket_max) * refillRate bucket_max\<rfloor> = 1
   \<and> min (tokens bucket_max + 1) (capacity bucket_max) = 9223372036854775807
   \<and> tokens (refillBucket bucket_max 1000000000) = - 9223372036854775808
   \<and> fst (Allow_bucket bucket_max 1000000000 1000000000) = False"
  by code_simp

section \<open>The invariant \<open>0 \<le> tokens \<le> capacity\<close>\<close>

lemma refillBucket_le_capacity:
  "tokens b \<le> capacity b \<Longrightarrow> tokens (refillBucket b now) \<le> capacity (refillBucket b now)"
  by (simp add: refillBucket_def Let_def)

lemma refillBucket_capacity [simp]: "capacity (refillBucket b now) = capacity b"
  by (simp add: refillBucket_def Let_def)

lemma refillBucket_refillRate [simp]: "refillRate (refillBucket b now) = refillRate b"
  by (simp add: refillBucket_def Let_def)

lemma refillBucket_inv:
  assumes "bucket_inv b"
    and "tokens b + go_int (round64 (Seconds (Sub now (lastRefill b)) * refillRate b)) \<le> max_int64"
  shows "bucket_inv (refillBucket b now)"
proof (cases "0 < go_int (round64 (Seconds (Sub now (lastRefill b)) * refillRate b))")
  case True
  let ?n = "go_int (round64 (Seconds (Sub now (lastRefill b)) * refillRate b))"
  from assms True have "int64 (tokens b + ?n)"
    by (simp add: int64_def bucket_inv_def min_int64_def)
  then have "wrap64 (tokens b + ?n) = tokens b + ?n" by (rule wrap64_id)
  with assms(1) True show ?thesis
    by (simp add: refillBucket_def Let_def bucket_inv_def)
next
  case False
  with assms(1) show ?thesis by (simp add: refillBucket_def Let_def)
qed

lemma Allow_bucket_inv:
  assumes "bucket_inv b" and "int64 (capacity b)"
    and "tokens b + go_int (round64 (Seconds (Sub now (lastRefill b)) * refillRate b)) \<le> max_int64"
  shows "bucket_inv (snd (Allow_bucket b now now'))"
proof -
  let ?r = "refillBucket b now"
  have inv: "bucket_inv ?r" using assms(1,3) by (rule refillBucket_inv)
  show ?thesis
  proof (cases "0 < tokens ?r")
    case True
    with inv assms(2) have "int64 (tokens ?r - 1)"
      unfolding int64_def bucket_inv_def min_int64_def by simp
    then have "wrap64 (tokens ?r - 1) = tokens ?r - 1" by (rule wrap64_id)
    with True inv show ?thesis
      by (simp add: Allow_bucket_def Let_def bucket_inv_def)
  next
    case False
    with inv show ?thesis
      by (simp add: Allow_bucket_def Let_def bucket_inv_def)
  qed
qed

text \<open>
  What does hold: a bucket created with a positive capacity satisfies
  \<open>0 \<le> tokens \<le> capacity\<close>; a refill and an \<open>Allow\<close> call keep it provided the sum
  \<open>tokens + newTokens\<close> that the refill computes does not exceed the largest \<open>int\<close>; and
  \<open>SetClientLimit\<close> with a positive capacity keeps it on an existing bucket.
\<close>

lemma tokens_between_zero_and_capacity:
  "(0 < cap \<longrightarrow> bucket_inv (newBucket cap rate now0))
   \<and> (bucket_inv b \<and> int64 (capacity b)
        \<and> tokens b + go_int (round64 (Seconds (Sub now (lastRefill b)) * refillRate b)) \<le> max_int64
      \<longrightarrow> bucket_inv (refillBucket b now) \<and> bucket_inv (snd (Allow_bucket b now now')))
   \<and> (bucket_inv b \<and> 0 < cap \<longrightarrow> bucket_inv (setLimits b cap rate))"
proof (intro conjI impI)
  assume "0 < cap"
  then show "bucket_inv (newBucket cap rate now0)"
    by (simp add: bucket_inv_def newBucket_def)
next
  assume a: "bucket_inv b \<and> int64 (capacity b)
        \<and> tokens b + go_int (round64 (Seconds (Sub now (lastRefill b)) * refillRate b)) \<le> max_int64"
  then show "bucket_inv (refillBucket b now)" by (simp add: refillBucket_inv)
  from a show "bucket_inv (snd (Allow_bucket b now now'))" by (simp add: Allow_bucket_inv)
next
  assume "bucket_inv b \<and> 0 < cap"
  then show "bucket_inv (setLimits b cap rate)"
    by (simp add: bucket_inv_def setLimits_def Let_def)
qed

text \<open>
  Claim C2 at an input where the code breaks it. A full bucket of capacity \<open>2^62\<close> and
  rate \<open>2^62\<close> per second satisfies \<open>0 \<le> tokens \<le> capacity\<close>; a refill one second after
  its creation computes \<open>tokens + newTokens = 2^63\<close>, which wraps around to \<open>- 2^63\<close>
  before the clamp, and the bucket is left with a negative token count, by the refill
  alone and by \<open>Allow\<close>.
\<close>

theorem refill_wraps_below_zero:
  "0 < capacity bucket_big \<and> bucket_inv bucket_big
   \<and> tokens (refillBucket bucket_big 1000000000) = - 9223372036854775808
   \<and> \<not> bucket_inv (refillBucket bucket_big 1000000000)
   \<and> \<not> bucket_inv (snd (Allow_bucket bucket_big 1000000000 1000000000))"
  by code_simp

section \<open>The administrative operations\<close>

text \<open>
  Claim C7. \<open>SetClientLimit\<close> on an existing bucket sets capacity and rate, lowers
  \<open>tokens\<close> to the new capacity when it is above it, and leaves \<open>tokens\<close> otherwise and
  \<open>lastRefill\<close> and \<open>lastAccess\<close> always as they were; without a bucket it installs a new
  full one; the table after the call is the same whether the write to the store fails or
  not, and a failed write leaves the store as it was; no other client's bucket changes.
\<close>

theorem SetClientLimit_updates_limits_only:
  "(buckets rl clientID = Some b \<longrightarrow>
      buckets (SetClientLimit rl clientID cap rate now fails) clientID =
        Some (b\<lparr>capacity := cap, refillRate := rate,
                 tokens := (if cap < tokens b then cap else tokens b)\<rparr>))
   \<and> (buckets rl clientID = None \<longrightarrow>
      buckets (SetClientLimit rl clientID cap rate now fails) clientID =
        Some \<lparr>capacity = cap, tokens = cap, refillRate = rate, lastRefill = now,
               lastAccess = now\<rparr>)
   \<and> buckets (SetClientLimit rl clientID cap rate now True) =
       buckets (SetClientLimit rl clientID cap rate now False)
   \<and> storage (SetClientLimit rl clientID cap rate now True) = storage rl
   \<and> (c \<noteq> clientID \<longrightarrow> buckets (SetClientLimit rl clientID cap rate now fails) c = buckets rl c)"
  by (cases "buckets rl clientID"; cases "storage rl")
     (simp_all add: SetClientLimit_def setLimits_def newBucket_def storage_SaveClientLimit_def
        Let_def)

text \<open>
  The theorem at the full bucket of capacity 5 (lowered to capacity 2: tokens become 2), at
  a client without a bucket, and at another client.
\<close>

theorem SetClientLimit_updates_limits_only_witness:
  "buckets (SetClientLimit limiter_u1 ''u1'' 2 0 7 False) ''u1'' =
     Some \<lparr>capacity = 2, tokens = 2, refillRate = 0, lastRefill = 0, lastAccess = 0\<rparr>
   \<and> buckets (SetClientLimit limiter_empty ''u1'' 2 0 7 False) ''u1'' =
     Some \<lparr>capacity = 2, tokens = 2, refillRate = 0, lastRefill = 7, lastAccess = 7\<rparr>
   \<and> buckets (SetClientLimit limiter_u1 ''u2'' 2 0 7 False) ''u1'' = buckets limiter_u1 ''u1''"
proof -
  have h1: "buckets limiter_u1 ''u1'' = Some (newBucket 5 1 0)"
    by (simp add: limiter_u1_def createBucketInMemory_def)
  have h2: "buckets limiter_empty ''u1'' = None"
    by (simp add: limiter_empty_def)
  have h3: "''u1'' \<noteq> ''u2''" by simp
  show ?thesis
    using SetClientLimit_updates_limits_only
            [of limiter_u1 "''u1''" "newBucket 5 1 0" 2 0 7 False "''u2''"]
          SetClientLimit_updates_limits_only
            [of limiter_empty "''u1''" "newBucket 5 1 0" 2 0 7 False "''u2''"]
          SetClientLimit_updates_limits_only
            [of limiter_u1 "''u2''" "newBucket 5 1 0" 2 0 7 False "''u1''"]
          h1 h2 h3
    by (simp add: newBucket_def)
qed

text \<open>
  Claim C8. \<open>DeleteClientLimit\<close> removes the bucket from the table first, in every case;
  when the store then fails, the error is returned, the record stays in the store, and the
  handler answers 500; whenever no error is returned, neither the table nor the store has
  an entry for the client, and the handler answers 200.
\<close>

theorem DeleteClientLimit_removes_both:
  "buckets (snd (DeleteClientLimit rl clientID fails)) clientID = None
   \<and> (storage rl = Some st \<and> fails \<longrightarrow>
        fst (DeleteClientLimit rl clientID fails) = Some StorageError
        \<and> storage (snd (DeleteClientLimit rl clientID fails)) = Some st
        \<and> (buckets rl clientID \<noteq> None \<longrightarrow> fst (DeleteClientHandler rl clientID fails) = 500))
   \<and> (fst (DeleteClientLimit rl clientID fails) = None \<longrightarrow>
        buckets (snd (DeleteClientLimit rl clientID fails)) clientID = None
        \<and> (\<forall>st'. storage (snd (DeleteClientLimit rl clientID fails)) = Some st'
               \<longrightarrow> st' clientID = None)
        \<and> (buckets rl clientID \<noteq> None \<longrightarrow>
             DeleteClientHandler rl clientID fails = (200, snd (DeleteClientLimit rl clientID fails))))"
  by (cases "storage rl"; cases fails; cases "buckets rl clientID")
     (simp_all add: DeleteClientLimit_def DeleteClientHandler_def GetClientLimit_def
        storage_DeleteClientLimit_def Let_def)

text \<open>
  The theorem at the limiter with a bucket and a record for \<open>u1\<close>: with a failing store
  the handler answers 500 and the record stays; with a working store the call succeeds
  and both entries are gone.
\<close>

theorem DeleteClientLimit_removes_both_witness:
  "fst (DeleteClientHandler limiter_u1 ''u1'' True) = 500
   \<and> storage (snd (DeleteClientLimit limiter_u1 ''u1'' True))
       = Some [''u1'' \<mapsto> \<lparr>Capacity = 5, RefillRate = 1\<rparr>]
   \<and> fst (DeleteClientLimit limiter_u1 ''u1'' False) = None
   \<and> buckets (snd (DeleteClientLimit limiter_u1 ''u1'' False)) ''u1'' = None
   \<and> storage (snd (DeleteClientLimit limiter_u1 ''u1'' False)) = Some Map.empty"
proof -
  have h1: "storage limiter_u1 = Some [''u1'' \<mapsto> \<lparr>Capacity = 5, RefillRate = 1\<rparr>] \<and> True"
    by (simp add: limiter_u1_def limiter_stored_def limiter_empty_def createBucketInMemory_def)
  have h2: "buckets limiter_u1 ''u1'' \<noteq> None"
    by (simp add: limiter_u1_def createBucketInMemory_def)
  have h3: "fst (DeleteClientLimit limiter_u1 ''u1'' False) = None"
    by (simp add: limiter_u1_def limiter_stored_def limiter_empty_def createBucketInMemory_def
        DeleteClientLimit_def storage_DeleteClientLimit_def Let_def)
  have h4: "storage (snd (DeleteClientLimit limiter_u1 ''u1'' False)) = Some Map.empty"
    by (simp add: limiter_u1_def limiter_stored_def limiter_empty_def createBucketInMemory_def
        DeleteClientLimit_def storage_DeleteClientLimit_def Let_def)
  show ?thesis
    using DeleteClientLimit_removes_both
            [of limiter_u1 "''u1''" True "[''u1'' \<mapsto> \<lparr>Capacity = 5, RefillRate = 1\<rparr>]"]
          DeleteClientLimit_removes_both
            [of limiter_u1 "''u1''" False "[''u1'' \<mapsto> \<lparr>Capacity = 5, RefillRate = 1\<rparr>]"]
          h1 h2 h3 h4
    by simp
qed

text \<open>
  Claim C9. \<open>GetClientLimit\<close> reads the table only: whatever the store is (\<open>st\<close> is
  arbitrary, so it may hold a record for the client), a client without a bucket gets the
  configured defaults with \<open>exists = false\<close>, and a client with a bucket gets the
  bucket's capacity and rate with \<open>exists = true\<close>.
\<close>

theorem GetClientLimit_reads_table_only:
  "(buckets rl clientID = None \<longrightarrow>
      GetClientLimit (rl\<lparr>storage := st\<rparr>) clientID = (defaultCap rl, defaultRate rl, False))
   \<and> (buckets rl clientID = Some b \<longrightarrow>
      GetClientLimit (rl\<lparr>storage := st\<rparr>) clientID = (capacity b, refillRate b, True))"
  by (simp add: GetClientLimit_def)

text \<open>
  The theorem at a limiter whose store holds the record (5, 1) for \<open>u1\<close>: without a
  bucket the answer is the defaults (100, 10), not the record; with the bucket it is the
  bucket's limits.
\<close>

theorem GetClientLimit_reads_table_only_witness:
  "GetClientLimit limiter_stored ''u1'' = (100, 10, False)
   \<and> GetClientLimit limiter_u1 ''u1'' = (5, 1, True)"
proof -
  have h1: "buckets limiter_empty ''u1'' = None"
    by (simp add: limiter_empty_def)
  have h2: "buckets limiter_u1 ''u1'' = Some (newBucket 5 1 0)"
    by (simp add: limiter_u1_def createBucketInMemory_def)
  have e1: "limiter_empty\<lparr>storage := Some [''u1'' \<mapsto> \<lparr>Capacity = 5, RefillRate = 1\<rparr>]\<rparr>
            = limiter_stored"
    by (simp add: limiter_stored_def)
  have e2: "limiter_u1\<lparr>storage := storage limiter_u1\<rparr> = limiter_u1"
    by simp
  show ?thesis
    using GetClientLimit_reads_table_only
            [of limiter_empty "''u1''" "Some [''u1'' \<mapsto> \<lparr>Capacity = 5, RefillRate = 1\<rparr>]"
                "newBucket 5 1 0"]
          GetClientLimit_reads_table_only
            [of limiter_u1 "''u1''" "storage limiter_u1" "newBucket 5 1 0"]
          h1 h2
    unfolding e1 e2
    by (simp add: limiter_empty_def newBucket_def)
qed

section \<open>No validation of the limits\<close>

lemma Allow_bucket_starved:
  assumes "tokens b \<le> capacity b" and "capacity b \<le> 0"
  shows "fst (Allow_bucket b now now') = False"
    and "tokens (snd (Allow_bucket b now now')) \<le> capacity (snd (Allow_bucket b now now'))"
    and "capacity (snd (Allow_bucket b now now')) = capacity b"
proof -
  have "tokens (refillBucket b now) \<le> capacity b"
    using refillBucket_le_capacity [OF assms(1), of now] by simp
  with assms(2) show "fst (Allow_bucket b now now') = False"
    and "tokens (snd (Allow_bucket b now now')) \<le> capacity (snd (Allow_bucket b now now'))"
    and "capacity (snd (Allow_bucket b now now')) = capacity b"
    by (simp_all add: Allow_bucket_def Let_def)
qed

lemma getBucket_other:
  "c \<noteq> clientID \<Longrightarrow> buckets (fst (snd (getBucket rl c fails now))) clientID = buckets rl clientID"
  by (simp add: getBucket_def Let_def split: option.splits prod.splits)

lemma getBucket_present:
  "buckets rl clientID = Some b \<Longrightarrow> getBucket rl clientID fails now = (b, rl, None)"
  by (simp add: getBucket_def)

lemma Allow_starved:
  assumes "starved rl clientID"
  shows "starved (fst (snd (Allow rl c fails now0 now now'))) clientID"
    and "c = clientID \<Longrightarrow> fst (Allow rl c fails now0 now now') = False"
proof -
  from assms obtain b where b: "buckets rl clientID = Some b"
    "tokens b \<le> capacity b" "capacity b \<le> 0"
    by (auto simp add: starved_def split: option.splits)
  show "starved (fst (snd (Allow rl c fails now0 now now'))) clientID"
  proof (cases "c = clientID")
    case True
    obtain ok b' where r: "Allow_bucket b now now' = (ok, b')"
      by (cases "Allow_bucket b now now'") auto
    with Allow_bucket_starved(2,3) [OF b(2,3), of now now']
    have "tokens b' \<le> capacity b'" "capacity b' = capacity b" by simp_all
    with True b r show ?thesis
      by (simp add: Allow_def getBucket_present starved_def)
  next
    case False
    obtain b0 rl1 sp where g: "getBucket rl c fails now0 = (b0, rl1, sp)"
      by (cases "getBucket rl c fails now0") auto
    with getBucket_other [OF False, of rl fails now0] b(1)
    have "buckets rl1 clientID = Some b" by simp
    with False b(2,3) g show ?thesis
      by (simp add: Allow_def starved_def split: prod.splits)
  qed
  show "c = clientID \<Longrightarrow> fst (Allow rl c fails now0 now now') = False"
    using b Allow_bucket_starved(1) [OF b(2,3), of now now']
    by (auto simp add: Allow_def getBucket_present split: prod.splits)
qed

lemma refillTokens_starved: "starved rl clientID \<Longrightarrow> starved (refillTokens rl nowf) clientID"
  using refillBucket_le_capacity
  by (fastforce simp add: starved_def refillTokens_def split: option.splits)

lemma spawned_save_starved: "starved rl clientID \<Longrightarrow> starved (spawned_save rl w fails) clientID"
  by (simp add: starved_def spawned_save_def split: option.splits prod.splits)

lemma run_starved: "starved rl clientID \<Longrightarrow> (clientID, True) \<notin> set (run rl evs)"
proof (induction evs arbitrary: rl)
  case Nil
  then show ?case by simp
next
  case (Cons ev evs)
  show ?case
  proof (cases ev)
    case (Admit c fails now0 now now')
    obtain ok rl' sp where r: "Allow rl c fails now0 now now' = (ok, rl', sp)"
      by (cases "Allow rl c fails now0 now now'") auto
    from Allow_starved [OF Cons.prems, of c fails now0 now now'] r
    have "starved rl' clientID" and "c = clientID \<Longrightarrow> \<not> ok" by simp_all
    with Cons.IH [of rl'] Admit r show ?thesis by auto
  next
    case (Tick nowf)
    with Cons.IH [OF refillTokens_starved [OF Cons.prems]] show ?thesis by simp
  next
    case (Persist c cap rate fails)
    with Cons.IH [OF spawned_save_starved [OF Cons.prems]] show ?thesis by simp
  qed
qed

text \<open>
  Claim C10. \<open>SetClientLimit\<close> and the handler of \<open>POST /clients\<close> check nothing about
  the limits: for a client without a bucket and any capacity and rate, the handler
  answers 201 and a bucket with \<open>tokens = capacity\<close> is installed, whether the store
  fails or not; and when the capacity is zero or negative, no later \<open>Allow\<close> call for
  that client returns true, in any history of \<open>Allow\<close> calls (for any clients), refill
  ticks and writes to the store; none of these removes or replaces the bucket.
\<close>

theorem SetClientLimit_accepts_any_capacity:
  assumes "buckets rl clientID = None" and "clientID \<noteq> []"
  shows "CreateClientHandler rl (Some \<lparr>Capacity = cap, RefillRate = rate\<rparr>) clientID now fails
           = (201, SetClientLimit rl clientID cap rate now fails)
       \<and> buckets (SetClientLimit rl clientID cap rate now fails) clientID
           = Some \<lparr>capacity = cap, tokens = cap, refillRate = rate, lastRefill = now,
                    lastAccess = now\<rparr>
       \<and> (cap \<le> 0 \<longrightarrow> (clientID, True) \<notin> set (run (SetClientLimit rl clientID cap rate now fails) evs))"
proof -
  have b: "buckets (SetClientLimit rl clientID cap rate now fails) clientID
           = Some \<lparr>capacity = cap, tokens = cap, refillRate = rate, lastRefill = now,
                    lastAccess = now\<rparr>"
    using assms(1)
    by (cases "storage rl")
       (simp_all add: SetClientLimit_def newBucket_def storage_SaveClientLimit_def Let_def)
  have "cap \<le> 0 \<Longrightarrow> starved (SetClientLimit rl clientID cap rate now fails) clientID"
    by (simp add: starved_def b)
  then have "cap \<le> 0 \<Longrightarrow>
      (clientID, True) \<notin> set (run (SetClientLimit rl clientID cap rate now fails) evs)"
    by (rule run_starved)
  with b assms(2) show ?thesis
    by (simp add: CreateClientHandler_def)
qed

text \<open>
  The theorem at capacity \<open>- 3\<close> and rate 1: two \<open>Allow\<close> calls, 5 s and 9 s later, with
  a refill tick between them, are refused.
\<close>

theorem SetClientLimit_accepts_any_capacity_witness:
  "CreateClientHandler limiter_empty (Some \<lparr>Capacity = - 3, RefillRate = 1\<rparr>) ''u1'' 0 False
     = (201, SetClientLimit limiter_empty ''u1'' (- 3) 1 0 False)
   \<and> buckets (SetClientLimit limiter_empty ''u1'' (- 3) 1 0 False) ''u1''
       = Some \<lparr>capacity = - 3, tokens = - 3, refillRate = 1, lastRefill = 0, lastAccess = 0\<rparr>
   \<and> (''u1'', True) \<notin> set (run (SetClientLimit limiter_empty ''u1'' (- 3) 1 0 False)
         [Admit ''u1'' False 0 5000000000 5000000000, Tick (\<lambda>c. 6000000000),
          Admit ''u1'' False 0 9000000000 9000000000])"
proof -
  have h1: "buckets limiter_empty ''u1'' = None" by (simp add: limiter_empty_def)
  have h2: "''u1'' \<noteq> []" by simp
  have h3: "(- 3 :: int) \<le> 0" by simp
  show ?thesis
    using SetClientLimit_accepts_any_capacity [OF h1 h2, of "- 3" 1 0 False
      "[Admit ''u1'' False 0 5000000000 5000000000, Tick (\<lambda>c. 6000000000),
          Admit ''u1'' False 0 9000000000 9000000000]"] h3
    by blast
qed

text \<open>
  Claim C10 as stated fails once the bucket has left the table: after
  \<open>SetClientLimit\<close> with capacity 0 whose write to the store fails, the bucket is evicted
  by the cleanup tick after 31 minutes without access, and the next \<open>Allow\<close> creates a
  bucket with the default limits and returns true.
\<close>

theorem Allow_after_eviction_counterexample:
  "buckets (SetClientLimit limiter_empty ''u1'' 0 1 0 True) ''u1'' = Some (newBucket 0 1 0)
   \<and> buckets (cleanupInactiveBuckets (SetClientLimit limiter_empty ''u1'' 0 1 0 True)
        1860000000000) ''u1'' = None
   \<and> fst (Allow (cleanupInactiveBuckets (SetClientLimit limiter_empty ''u1'' 0 1 0 True)
        1860000000000) ''u1'' False 1860000000001 1860000000001 1860000000001) = True"
  by code_simp

section \<open>Round-robin selection\<close>

lemma go_rem_mod: "0 \<le> a \<Longrightarrow> 0 < n \<Longrightarrow> go_rem a n = a mod n"
  by (simp add: go_rem_def)

lemma rr_pos_less: "ss \<noteq> [] \<Longrightarrow> rr_pos ss c j < length ss"
  by (simp add: rr_pos_def nat_less_iff)

lemma int_rr_pos: "ss \<noteq> [] \<Longrightarrow> int (rr_pos ss c j) = (c + 1 + int j) mod int (length ss)"
  by (simp add: rr_pos_def)

lemma rr_pos_step:
  "ss \<noteq> [] \<Longrightarrow> rr_pos ss (int (rr_pos ss c 0)) j = rr_pos ss c (Suc j)"
proof -
  assume ne: "ss \<noteq> []"
  let ?n = "int (length ss)"
  have "((c + 1) mod ?n + 1 + int j) mod ?n = (c + 1 + (1 + int j)) mod ?n"
    by (metis (no_types, opaque_lifting) add.assoc mod_add_left_eq)
  then show ?thesis using ne
    by (simp add: rr_pos_def algebra_simps)
qed

lemma rr_loop_spec:
  assumes "ss \<noteq> []" and "- 1 \<le> cur"
    and "\<forall>j. Suc j < k \<longrightarrow> int (rr_pos ss cur j) \<noteq> init"
  shows "case rr_loop ss init k cur of
           None \<Rightarrow> False
         | Some (None, c') \<Rightarrow> (\<forall>j<k. \<not> Healthy (ss ! rr_pos ss cur j))
         | Some (Some i, c') \<Rightarrow>
             c' = int i \<and> Healthy (ss ! i)
             \<and> (\<exists>j<k. i = rr_pos ss cur j
                     \<and> (\<forall>j'<j. \<not> Healthy (ss ! rr_pos ss cur j')))"
  using assms(2,3)
proof (induction k arbitrary: cur)
  case 0
  then show ?case by simp
next
  case (Suc k)
  let ?n = "int (length ss)"
  let ?c = "int (rr_pos ss cur 0)"
  have n: "0 < ?n" using assms(1) by simp
  have c: "go_rem (cur + 1) ?n = ?c"
    using Suc.prems(1) n by (simp add: go_rem_mod rr_pos_def)
  have rng: "0 \<le> ?c" "?c < ?n"
    using rr_pos_less [OF assms(1), of cur 0] by simp_all
  have step: "rr_loop ss init (Suc k) cur =
      (if Healthy (ss ! rr_pos ss cur 0) then Some (Some (rr_pos ss cur 0), ?c)
       else if ?c = init then Some (None, ?c)
       else rr_loop ss init k ?c)"
    using rng by (simp add: c Let_def del: of_nat_less_iff)
  show ?case
  proof (cases "Healthy (ss ! rr_pos ss cur 0)")
    case True
    then show ?thesis unfolding step by auto
  next
    case unhealthy: False
    show ?thesis
    proof (cases "?c = init")
      case True
      with Suc.prems(2) have "k = 0" by (cases k) auto
      with True unhealthy show ?thesis unfolding step by simp
    next
      case False
      have "- 1 \<le> ?c" by simp
      moreover have "\<forall>j. Suc j < k \<longrightarrow> int (rr_pos ss ?c j) \<noteq> init"
        using Suc.prems(2) by (simp add: rr_pos_step [OF assms(1)])
      ultimately have IH: "case rr_loop ss init k ?c of
           None \<Rightarrow> False
         | Some (None, c') \<Rightarrow> (\<forall>j<k. \<not> Healthy (ss ! rr_pos ss ?c j))
         | Some (Some i, c') \<Rightarrow>
             c' = int i \<and> Healthy (ss ! i)
             \<and> (\<exists>j<k. i = rr_pos ss ?c j
                     \<and> (\<forall>j'<j. \<not> Healthy (ss ! rr_pos ss ?c j')))"
        by (rule Suc.IH)
      have eq: "rr_loop ss init (Suc k) cur = rr_loop ss init k ?c"
        unfolding step using unhealthy False by simp
      show ?thesis
      proof (cases "rr_loop ss init k ?c")
        case None
        with IH show ?thesis by simp
      next
        case (Some r)
        obtain res c' where r: "r = (res, c')" by (cases r)
        show ?thesis
        proof (cases res)
          case None
          with IH Some r have "\<forall>j<k. \<not> Healthy (ss ! rr_pos ss cur (Suc j))"
            by (simp add: rr_pos_step [OF assms(1)])
          with unhealthy have "\<forall>j<Suc k. \<not> Healthy (ss ! rr_pos ss cur j)"
            by (auto simp add: less_Suc_eq_0_disj)
          with eq Some r None show ?thesis by simp
        next
          case (Some i)
          with IH \<open>rr_loop ss init k ?c = Some r\<close> r
          obtain j where j: "c' = int i" "Healthy (ss ! i)" "j < k"
            "i = rr_pos ss cur (Suc j)"
            "\<forall>j'<j. \<not> Healthy (ss ! rr_pos ss cur (Suc j'))"
            by (auto simp add: rr_pos_step [OF assms(1)])
          from j(5) unhealthy have "\<forall>j'<Suc j. \<not> Healthy (ss ! rr_pos ss cur j')"
            by (auto simp add: less_Suc_eq_0_disj)
          with j(1-4) have "c' = int i \<and> Healthy (ss ! i)
             \<and> (\<exists>j<Suc k. i = rr_pos ss cur j
                     \<and> (\<forall>j'<j. \<not> Healthy (ss ! rr_pos ss cur j')))"
            by (intro conjI exI [of _ "Suc j"]) simp_all
          with eq \<open>rr_loop ss init k ?c = Some r\<close> r Some show ?thesis by simp
        qed
      qed
    qed
  qed
qed


lemma rr_loop_cursor:
  assumes "ss \<noteq> []"
  shows "- 1 \<le> cur \<Longrightarrow> cur < int (length ss) \<Longrightarrow> rr_loop ss init k cur = Some (r, c')
    \<Longrightarrow> - 1 \<le> c' \<and> c' < int (length ss)"
proof (induction k arbitrary: cur)
  case 0
  then show ?case by simp
next
  case (Suc k)
  let ?n = "int (length ss)"
  let ?c = "int (rr_pos ss cur 0)"
  have n: "0 < ?n" using assms by simp
  have c: "go_rem (cur + 1) ?n = ?c"
    using Suc.prems(1) n by (simp add: go_rem_mod rr_pos_def)
  have rng: "0 \<le> ?c" "?c < ?n"
    using rr_pos_less [OF assms, of cur 0] by simp_all
  have step: "rr_loop ss init (Suc k) cur =
      (if Healthy (ss ! rr_pos ss cur 0) then Some (Some (rr_pos ss cur 0), ?c)
       else if ?c = init then Some (None, ?c)
       else rr_loop ss init k ?c)"
    using rng by (simp add: c Let_def del: of_nat_less_iff)
  have "- 1 \<le> ?c" by simp
  from Suc.IH [OF this rng(2)] Suc.prems(3) rng show ?case
    unfolding step by (auto split: if_splits)
qed

lemma rr_pos_not_back:
  assumes "ss \<noteq> []" and "- 1 \<le> c" and "c < int (length ss)" and "Suc j < length ss"
  shows "int (rr_pos ss c j) \<noteq> c"
proof (cases "c = - 1")
  case True
  then show ?thesis by simp
next
  case False
  let ?n = "int (length ss)"
  from False assms(2) have c0: "0 \<le> c" by simp
  show ?thesis
  proof
    assume "int (rr_pos ss c j) = c"
    then have "(c + 1 + int j) mod ?n = c"
      by (simp add: int_rr_pos [OF assms(1)])
    then have "(c + 1 + int j) mod ?n = c mod ?n"
      using c0 assms(3) by simp
    then have "?n dvd (c + 1 + int j) - c"
      by (simp add: mod_eq_dvd_iff)
    then have "?n dvd 1 + int j" by (simp add: algebra_simps)
    then have "?n \<le> 1 + int j" by (rule zdvd_imp_le) simp
    with assms(4) show False by simp
  qed
qed

lemma rr_pos_surj:
  assumes "ss \<noteq> []" and "i < length ss"
  shows "\<exists>j<length ss. rr_pos ss c j = i"
proof -
  let ?n = "int (length ss)"
  let ?j = "nat ((int i - c - 1) mod ?n)"
  have n: "0 < ?n" using assms(1) by simp
  then have j: "?j < length ss" by (simp add: nat_less_iff)
  have "int ?j = (int i - c - 1) mod ?n" using n by simp
  then have "(c + 1 + int ?j) mod ?n = (c + 1 + (int i - c - 1)) mod ?n"
    by (simp add: mod_add_right_eq)
  also have "\<dots> = int i" using assms(2) by simp
  finally have "rr_pos ss c ?j = i" by (simp add: rr_pos_def)
  with j show ?thesis by blast
qed

lemma rr_pos_inj:
  assumes "ss \<noteq> []"
  shows "inj_on (rr_pos ss c) {0..<length ss}"
proof (rule inj_onI)
  fix j j' assume jj: "j \<in> {0..<length ss}" "j' \<in> {0..<length ss}"
    and e: "rr_pos ss c j = rr_pos ss c j'"
  let ?n = "int (length ss)"
  from e have "(c + 1 + int j) mod ?n = (c + 1 + int j') mod ?n"
    using int_rr_pos [OF assms, of c j] int_rr_pos [OF assms, of c j'] by simp
  then have "int j mod ?n = int j' mod ?n"
    by (metis add.commute add_diff_cancel_left' mod_diff_cong)
  with jj show "j = j'" by simp
qed

lemma rr_pos_initial: "j < length ss \<Longrightarrow> rr_pos ss (- 1) j = j"
  by (simp add: rr_pos_def)

lemma rr_NextServer_all_healthy:
  assumes "ss \<noteq> []" and "- 1 \<le> c" and "\<forall>s\<in>set ss. Healthy s"
  shows "rr_NextServer c ss = Some (Some (rr_pos ss c 0), int (rr_pos ss c 0))"
proof -
  let ?n = "int (length ss)"
  have n: "0 < ?n" using assms(1) by simp
  have c: "go_rem (c + 1) ?n = int (rr_pos ss c 0)"
    using assms(2) n by (simp add: go_rem_mod rr_pos_def)
  have rng: "rr_pos ss c 0 < length ss" by (rule rr_pos_less [OF assms(1)])
  with assms(3) have h: "Healthy (ss ! rr_pos ss c 0)" by simp
  obtain k where k: "length ss = Suc k" using assms(1) by (cases ss) auto
  have "rr_loop ss c (Suc k) c = Some (Some (rr_pos ss c 0), int (rr_pos ss c 0))"
    using h rng by (simp add: c Let_def del: of_nat_less_iff)
  with k assms(1) show ?thesis by (simp add: rr_NextServer_def)
qed

lemma rr_picks_all_healthy:
  assumes "ss \<noteq> []" and "\<forall>s\<in>set ss. Healthy s"
  shows "- 1 \<le> c \<Longrightarrow> rr_picks ss c m = Some (map (\<lambda>j. Some (rr_pos ss c j)) [0..<m])"
proof (induction m arbitrary: c)
  case 0
  then show ?case by simp
next
  case (Suc m)
  have "- 1 \<le> int (rr_pos ss c 0)" by simp
  from Suc.IH [OF this]
  have "rr_picks ss (int (rr_pos ss c 0)) m = Some (map (\<lambda>j. Some (rr_pos ss c (Suc j))) [0..<m])"
    by (simp add: rr_pos_step [OF assms(1)])
  then show ?case
    using rr_NextServer_all_healthy [OF assms(1) Suc.prems assms(2)]
    by (simp add: map_upt_Suc del: upt_Suc)
qed

text \<open>
  Claim C4. For a non-empty pool and a cursor the selector can hold (\<open>- 1\<close> initially, an
  index afterwards), \<open>NextServer\<close> never fails on an index; it returns the first healthy
  backend among the at most pool-size positions after the cursor, in cyclic pool order,
  and leaves the cursor at that backend's index; it returns none exactly when it has
  found every backend unhealthy. When all backends are healthy, as many consecutive picks
  as the pool has backends return the positions after the cursor in cyclic order, each
  backend exactly once; starting from the initial cursor these are the backends in pool
  order.
\<close>

theorem RoundRobin_NextServer_scans_forward:
  assumes "ss \<noteq> []" and "- 1 \<le> cur" and "cur < int (length ss)"
  shows "(case rr_NextServer cur ss of
            None \<Rightarrow> False
          | Some (None, c') \<Rightarrow>
              (\<forall>i<length ss. \<not> Healthy (ss ! i)) \<and> - 1 \<le> c' \<and> c' < int (length ss)
          | Some (Some i, c') \<Rightarrow>
              c' = int i \<and> i < length ss \<and> Healthy (ss ! i)
              \<and> (\<exists>j<length ss. i = rr_pos ss cur j
                      \<and> (\<forall>j'<j. \<not> Healthy (ss ! rr_pos ss cur j'))))
       \<and> ((\<forall>s\<in>set ss. Healthy s) \<longrightarrow>
            rr_picks ss cur (length ss) = Some (map (\<lambda>j. Some (rr_pos ss cur j)) [0..<length ss])
            \<and> distinct (map (rr_pos ss cur) [0..<length ss])
            \<and> set (map (rr_pos ss cur) [0..<length ss]) = {0..<length ss}
            \<and> rr_picks ss NewRoundRobin (length ss) = Some (map Some [0..<length ss]))"
proof (intro conjI impI)
  have noback: "\<forall>j. Suc j < length ss \<longrightarrow> int (rr_pos ss cur j) \<noteq> cur"
    using rr_pos_not_back [OF assms] by blast
  have eq: "rr_NextServer cur ss = rr_loop ss cur (length ss) cur"
    using assms(1) by (simp add: rr_NextServer_def)
  note spec = rr_loop_spec [OF assms(1,2) noback]
  show "case rr_NextServer cur ss of
            None \<Rightarrow> False
          | Some (None, c') \<Rightarrow>
              (\<forall>i<length ss. \<not> Healthy (ss ! i)) \<and> - 1 \<le> c' \<and> c' < int (length ss)
          | Some (Some i, c') \<Rightarrow>
              c' = int i \<and> i < length ss \<and> Healthy (ss ! i)
              \<and> (\<exists>j<length ss. i = rr_pos ss cur j
                      \<and> (\<forall>j'<j. \<not> Healthy (ss ! rr_pos ss cur j')))"
  proof (cases "rr_loop ss cur (length ss) cur")
    case None
    with spec show ?thesis by simp
  next
    case (Some r)
    obtain res c' where r: "r = (res, c')" by (cases r)
    note cur = rr_loop_cursor [OF assms(1,2,3) Some [unfolded r]]
    show ?thesis
    proof (cases res)
      case None
      with spec Some r have un: "\<forall>j<length ss. \<not> Healthy (ss ! rr_pos ss cur j)" by simp
      have "\<forall>i<length ss. \<not> Healthy (ss ! i)"
      proof (intro allI impI)
        fix i assume "i < length ss"
        from rr_pos_surj [OF assms(1) this, of cur] un show "\<not> Healthy (ss ! i)" by auto
      qed
      with cur eq Some r None show ?thesis by simp
    next
      case (Some i)
      with spec \<open>rr_loop ss cur (length ss) cur = Some r\<close> r
      have "c' = int i \<and> Healthy (ss ! i)
             \<and> (\<exists>j<length ss. i = rr_pos ss cur j
                     \<and> (\<forall>j'<j. \<not> Healthy (ss ! rr_pos ss cur j')))"
        by simp
      moreover from this have "i < length ss"
        using rr_pos_less [OF assms(1)] by auto
      ultimately show ?thesis
        using eq \<open>rr_loop ss cur (length ss) cur = Some r\<close> r Some by simp
    qed
  qed
next
  assume h: "\<forall>s\<in>set ss. Healthy s"
  show "rr_picks ss cur (length ss) = Some (map (\<lambda>j. Some (rr_pos ss cur j)) [0..<length ss])"
    by (rule rr_picks_all_healthy [OF assms(1) h assms(2)])
  show "distinct (map (rr_pos ss cur) [0..<length ss])"
    using rr_pos_inj [OF assms(1), of cur] by (simp add: distinct_map)
  have "rr_pos ss cur ` {0..<length ss} \<subseteq> {0..<length ss}"
    using rr_pos_less [OF assms(1)] by auto
  moreover have "card (rr_pos ss cur ` {0..<length ss}) = card {0..<length ss}"
    by (rule card_image [OF rr_pos_inj [OF assms(1)]])
  ultimately have "rr_pos ss cur ` {0..<length ss} = {0..<length ss}"
    by (intro card_subset_eq) simp_all
  then show "set (map (rr_pos ss cur) [0..<length ss]) = {0..<length ss}" by simp
  have "rr_picks ss (- 1) (length ss) = Some (map (\<lambda>j. Some (rr_pos ss (- 1) j)) [0..<length ss])"
    by (rule rr_picks_all_healthy [OF assms(1) h]) simp
  also have "map (\<lambda>j. Some (rr_pos ss (- 1) j)) [0..<length ss] = map Some [0..<length ss]"
    by (simp add: rr_pos_initial)
  finally show "rr_picks ss NewRoundRobin (length ss) = Some (map Some [0..<length ss])"
    by (simp add: NewRoundRobin_def)
qed

text \<open>
  The theorem at the pool of three healthy backends with the initial cursor, and at
  the mixed pool with the cursor on the first backend (the second is skipped).
\<close>

theorem RoundRobin_NextServer_scans_forward_witness:
  "rr_picks pool_healthy NewRoundRobin 3 = Some [Some 0, Some 1, Some 2]
   \<and> rr_NextServer 0 pool_mixed = Some (Some 2, 2)"
proof -
  have h1: "pool_healthy \<noteq> []" by (simp add: pool_healthy_def)
  have h2: "- 1 \<le> NewRoundRobin" by (simp add: NewRoundRobin_def)
  have h3: "NewRoundRobin < int (length pool_healthy)"
    by (simp add: NewRoundRobin_def pool_healthy_def)
  have h4: "\<forall>s\<in>set pool_healthy. Healthy s" by (simp add: pool_healthy_def)
  have l: "length pool_healthy = 3" by (simp add: pool_healthy_def)
  have u: "[0..<3] = [0, 1, 2]" by (simp add: upt_rec)
  have g1: "pool_mixed \<noteq> []" by (simp add: pool_mixed_def)
  have g2: "- 1 \<le> (0::int)" by simp
  have g3: "0 < int (length pool_mixed)" by (simp add: pool_mixed_def)
  have e: "rr_NextServer 0 pool_mixed = Some (Some 2, 2)"
    by (simp add: rr_NextServer_def pool_mixed_def go_rem_def eval_nat_numeral Let_def)
  from RoundRobin_NextServer_scans_forward [OF h1 h2 h3] h4
  have "rr_picks pool_healthy NewRoundRobin (length pool_healthy)
      = Some (map Some [0..<length pool_healthy])"
    by blast
  then have "rr_picks pool_healthy NewRoundRobin 3 = Some [Some 0, Some 1, Some 2]"
    unfolding l u by simp
  with e RoundRobin_NextServer_scans_forward [OF g1 g2 g3] show ?thesis by simp
qed

section \<open>Least-connections selection\<close>

lemma rr_loop_healthy:
  "rr_loop ss init k cur = Some (Some i, c') \<Longrightarrow> i < length ss \<and> Healthy (ss ! i)"
proof (induction k arbitrary: cur)
  case 0
  then show ?case by simp
next
  case (Suc k)
  then show ?case
    by (auto simp add: Let_def nat_less_iff split: if_splits)
qed

lemma lc_loop_spec:
  "drop k ss = xs \<Longrightarrow> k \<le> length ss \<Longrightarrow> least_loaded ss k m
    \<Longrightarrow> (\<forall>i. m = Some i \<longrightarrow> mc = ActiveConnections (ss ! i))
    \<Longrightarrow> least_loaded ss (length ss) (lc_loop (enumerate k xs) m mc)"
proof (induction xs arbitrary: k m mc)
  case Nil
  then have "k = length ss" by simp
  with Nil(3) show ?case by simp
next
  case (Cons x xs)
  from Cons.prems(1) have k: "k < length ss"
    by (metis drop_all list.distinct(1) not_le)
  from Cons.prems(1) k have x: "ss ! k = x"
    by (metis nth_via_drop)
  from Cons.prems(1) have d: "drop (Suc k) ss = xs"
    by (metis drop_Suc list.sel(3) tl_drop)
  from k have sk: "Suc k \<le> length ss" by simp
  show ?case
  proof (cases "Healthy x")
    case False
    with Cons.prems(3) x have "least_loaded ss (Suc k) m"
      by (auto simp add: least_loaded_def less_Suc_eq split: option.splits)
    from Cons.IH [OF d sk this Cons.prems(4)] False show ?thesis by simp
  next
    case True
    show ?thesis
    proof (cases "m = None \<or> ActiveConnections x < mc")
      case new: True
      have "least_loaded ss (Suc k) (Some k)"
        using Cons.prems(3,4) x True new
        by (auto simp add: least_loaded_def less_Suc_eq split: option.splits)
      moreover have "\<forall>i. Some k = Some i \<longrightarrow> ActiveConnections x = ActiveConnections (ss ! i)"
        using x by simp
      ultimately have "least_loaded ss (length ss) (lc_loop (enumerate (Suc k) xs) (Some k) (ActiveConnections x))"
        using Cons.IH [OF d sk] by blast
      with True new show ?thesis by (simp add: Let_def)
    next
      case keep: False
      have "least_loaded ss (Suc k) m"
        using Cons.prems(3,4) x True keep
        by (auto simp add: least_loaded_def less_Suc_eq split: option.splits)
      from Cons.IH [OF d sk this Cons.prems(4)] True keep show ?thesis by (auto simp add: Let_def)
    qed
  qed
qed

lemma lc_NextServer_least_loaded: "least_loaded ss (length ss) (lc_NextServer ss)"
proof (cases "ss = []")
  case True
  then show ?thesis by (simp add: lc_NextServer_def least_loaded_def)
next
  case False
  have "least_loaded ss (length ss) (lc_loop (enumerate 0 ss) None (- 1))"
    by (rule lc_loop_spec) (simp_all add: least_loaded_def)
  with False show ?thesis by (simp add: lc_NextServer_def)
qed

text \<open>
  Claim C5. \<open>LeastConnections.NextServer\<close> returns a healthy backend whose count is the
  smallest among the healthy backends and strictly smaller than that of every healthy
  backend before it in the pool (so ties go to the first); it returns none exactly when
  no backend is healthy. A backend returned by \<open>RoundRobin.NextServer\<close> is healthy too, for
  every cursor.
\<close>

theorem LeastConnections_NextServer_minimal:
  "(case lc_NextServer ss of
      None \<Rightarrow> (\<forall>s\<in>set ss. \<not> Healthy s)
    | Some i \<Rightarrow>
        i < length ss \<and> Healthy (ss ! i)
        \<and> (\<forall>j<length ss. Healthy (ss ! j)
               \<longrightarrow> ActiveConnections (ss ! i) \<le> ActiveConnections (ss ! j))
        \<and> (\<forall>j<i. Healthy (ss ! j)
               \<longrightarrow> ActiveConnections (ss ! i) < ActiveConnections (ss ! j)))
   \<and> (lc_NextServer ss = None \<longleftrightarrow> (\<forall>s\<in>set ss. \<not> Healthy s))
   \<and> (rr_NextServer cur ss = Some (Some i', c') \<longrightarrow> i' < length ss \<and> Healthy (ss ! i'))"
proof -
  have ll: "least_loaded ss (length ss) (lc_NextServer ss)"
    by (rule lc_NextServer_least_loaded)
  have set: "(\<forall>s\<in>set ss. \<not> Healthy s) \<longleftrightarrow> (\<forall>j<length ss. \<not> Healthy (ss ! j))"
    by (simp add: all_set_conv_all_nth)
  have a: "case lc_NextServer ss of
      None \<Rightarrow> (\<forall>s\<in>set ss. \<not> Healthy s)
    | Some i \<Rightarrow>
        i < length ss \<and> Healthy (ss ! i)
        \<and> (\<forall>j<length ss. Healthy (ss ! j)
               \<longrightarrow> ActiveConnections (ss ! i) \<le> ActiveConnections (ss ! j))
        \<and> (\<forall>j<i. Healthy (ss ! j)
               \<longrightarrow> ActiveConnections (ss ! i) < ActiveConnections (ss ! j))"
    using ll unfolding least_loaded_def set by (simp split: option.splits)
  have b: "lc_NextServer ss = None \<longleftrightarrow> (\<forall>s\<in>set ss. \<not> Healthy s)"
    using ll unfolding least_loaded_def set by (auto split: option.splits)
  have c: "rr_NextServer cur ss = Some (Some i', c') \<longrightarrow> i' < length ss \<and> Healthy (ss ! i')"
    using rr_loop_healthy [of ss cur "length ss" cur i' c']
    by (auto simp add: rr_NextServer_def split: if_splits)
  from a b c show ?thesis by blast
qed

text \<open>
  The theorem at the mixed pool: the unhealthy backend with count 0 is passed over, and
  of the two healthy backends with count 1 the first is taken; at the pool without a
  healthy backend nothing is returned.
\<close>

theorem LeastConnections_NextServer_minimal_witness:
  "lc_NextServer pool_mixed = Some 2 \<and> Healthy (pool_mixed ! 2)
   \<and> lc_NextServer pool_down = None"
proof -
  have e1: "lc_NextServer pool_mixed = Some 2"
    by (simp add: lc_NextServer_def pool_mixed_def enumerate_eq_zip upt_rec Let_def)
  have e2: "\<forall>s\<in>set pool_down. \<not> Healthy s" by (simp add: pool_down_def)
  have e3: "rr_NextServer 0 pool_mixed = Some (Some 2, 2)"
    by (simp add: rr_NextServer_def pool_mixed_def go_rem_def eval_nat_numeral Let_def)
  show ?thesis
    using LeastConnections_NextServer_minimal [of pool_mixed 0 2 2]
      LeastConnections_NextServer_minimal [of pool_down 0 2 2] e1 e2 e3
    by simp
qed

section \<open>Dispatching a request (LoadBalancer.ServeHTTP)\<close>

lemma decr_incr:
  assumes "i < length ss" and "int64 (ActiveConnections (ss ! i))"
    and "int64 (ActiveConnections (ss ! i) + 1)"
  shows "decr (incr ss i) i = ss"
proof -
  have "wrap64 (ActiveConnections (ss ! i) + 1) = ActiveConnections (ss ! i) + 1"
    by (rule wrap64_id [OF assms(3)])
  moreover have "wrap64 (ActiveConnections (ss ! i)) = ActiveConnections (ss ! i)"
    by (rule wrap64_id [OF assms(2)])
  ultimately show ?thesis using assms(1)
    by (simp add: decr_def incr_def list_update_same_conv)
qed

lemma ServeHTTP_returns_balanced:
  assumes "getNextServer lb = Some (Some i, lb1)" and "i < length (servers lb1)"
    and "int64 (ActiveConnections (servers lb1 ! i))"
    and "int64 (ActiveConnections (servers lb1 ! i) + 1)" and "proxy i \<noteq> ProxyPanic"
  shows "servers (snd (ServeHTTP lb proxy)) = servers lb1"
  using assms decr_incr [OF assms(2,3,4)]
  by (cases "proxy i") (simp_all add: ServeHTTP_def Let_def)

text \<open>
  Claim C6 at the input where it fails. When forwarding panics, \<open>ServeHTTP\<close> is left
  after the increment and before the decrement: the chosen backend, idle before the
  request, keeps the count 1 after it. (When forwarding returns, with or without an
  error, the count is back at its value, see \<open>ServeHTTP_returns_balanced\<close>.)
\<close>

theorem ServeHTTP_panic_keeps_count:
  "ActiveConnections (servers balancer_sample ! 0) = 0
   \<and> fst (ServeHTTP balancer_sample (\<lambda>i. ProxyPanic)) = Panicked
   \<and> ActiveConnections (servers (snd (ServeHTTP balancer_sample (\<lambda>i. ProxyPanic))) ! 0) = 1
   \<and> ActiveConnections (servers (snd (ServeHTTP balancer_sample (\<lambda>i. BadGateway))) ! 0) = 0"
  by (simp add: balancer_sample_def pool_healthy_def NewRoundRobin_def ServeHTTP_def
      getNextServer_def rr_NextServer_def go_rem_def incr_def decr_def wrap64_def
      eval_nat_numeral Let_def)

end
